theory Spec2Isabelle
  imports Main "HOL-Library.Word"
begin

unbundle bit_operations_syntax

section \<open>Data model\<close>

text \<open>
  The unit-of-work engine of everest (\<^verbatim>\<open>repositories/nosqldb/uow.py\<close> and
  \<^verbatim>\<open>repositories/nosqldb/session.py\<close>). Entities are mutable Python objects that the
  cache, the unit of work and the caller share, so they live in an explicit store and are
  referred to by address; \<^verbatim>\<open>is\<close> on entities is equality of addresses.
\<close>

datatype object_state = CLEAN | NEW | DELETED | DIRTY

text \<open>
  The exceptions the code raises. Python raises \<^verbatim>\<open>ValueError\<close> for the first six,
  \<^verbatim>\<open>KeyError\<close> for a key missing from a dictionary, \<^verbatim>\<open>ValueError\<close> again for
  \<^verbatim>\<open>list.remove\<close> of an absent element, \<^verbatim>\<open>TypeError\<close> for a call with the wrong
  number of arguments and \<^verbatim>\<open>AttributeError\<close> for a missing attribute.
  \<open>InvalidStateTransition\<close> carries the two values the message is formatted from:
  the recorded state and the target.
\<close>

datatype error =
    InvalidInitialState object_state
  | InvalidStateTransition object_state object_state
  | AlreadyRegistered
  | Unregistered
  | DuplicateKey int
  | DuplicateSlug string
  | IdIsNone
  | KeyError
  | NotInList
  | TypeError
  | AttributeError

type_synonym addr = nat
type_synonym cls = string

text \<open>
  \<open>ObjectStateManager\<close>: the fields \<^verbatim>\<open>__state\<close> and \<^verbatim>\<open>__last_state_hash\<close>. The weak
  reference \<^verbatim>\<open>__obj_ref\<close> is the tracked object itself, which every function below
  takes as its \<open>obj\<close> argument.
\<close>

record state_manager =
  state :: object_state
  last_state_hash :: int

text \<open>
  An entity, as far as the engine reads it: what \<^verbatim>\<open>entity.id\<close> and \<^verbatim>\<open>entity.slug\<close>
  return (\<open>None\<close> for Python's \<^verbatim>\<open>None\<close>), the items of \<^verbatim>\<open>entity.__dict__\<close> in the order
  \<^verbatim>\<open>iteritems()\<close> yields them, each value as \<^verbatim>\<open>%s\<close> renders it, and the attribute
  \<^verbatim>\<open>__everest__\<close> (\<open>None\<close> when \<^verbatim>\<open>hasattr(entity, '__everest__')\<close> is false; its name
  starts with an underscore, so it is never one of the public items).
\<close>

record entity =
  ent_id :: "int option"
  ent_slug :: "string option"
  ent_dict :: "(string \<times> string) list"
  everest :: "state_manager option"

type_synonym heap = "addr \<Rightarrow> entity"

section \<open>The built-in string hash\<close>

text \<open>
  The tracker calls Python's built-in \<^verbatim>\<open>hash\<close> on a string. Every function below takes
  the hash as a parameter \<open>H\<close>, and every general theorem holds for any \<open>H\<close>. For the
  closed examples, \<open>string_hash\<close> is the string hash of CPython 2.7 on a 64-bit
  platform with hash randomisation off: \<^verbatim>\<open>x = s[0] << 7\<close>, then
  \<^verbatim>\<open>x = (1000003 * x) ^ c\<close> for each character, \<^verbatim>\<open>x ^= len(s)\<close>, and \<^verbatim>\<open>-1\<close> replaced by
  \<^verbatim>\<open>-2\<close>, in wrapping 64-bit arithmetic; the empty string hashes to 0.
\<close>

definition string_hash :: "string \<Rightarrow> int" where
  "string_hash s =
     (if s = [] then 0
      else let x0 = push_bit 7 (of_char (hd s)) :: 64 word;
               x1 = fold (\<lambda>c x. (1000003 * x) XOR of_char c) s x0;
               x2 = x1 XOR of_nat (length s)
           in if x2 = - 1 then - 2 else sint x2)"

section \<open>ObjectStateManager\<close>

text \<open>\<^verbatim>\<open>not k.startswith('_')\<close>\<close>

definition public :: "string \<Rightarrow> bool" where
  "public k = (case k of [] \<Rightarrow> True | c # _ \<Rightarrow> c \<noteq> CHR ''_'')"

text \<open>\<^verbatim>\<open>sep.join(tokens)\<close>\<close>

fun join :: "string \<Rightarrow> string list \<Rightarrow> string" where
  "join sep [] = []"
| "join sep [t] = t"
| "join sep (t # u # ts) = t @ sep @ join sep (u # ts)"

text \<open>\<^verbatim>\<open>__get_state_string\<close>: the tokens \<^verbatim>\<open>'%s:%s' % (k, v)\<close> of the public items, joined by commas.\<close>

definition get_state_string :: "entity \<Rightarrow> string" where
  "get_state_string obj =
     join '','' (map (\<lambda>(k, v). k @ '':'' @ v) (filter (\<lambda>(k, v). public k) (ent_dict obj)))"

text \<open>\<^verbatim>\<open>__init__(self, tracked_object, initial_state)\<close>\<close>

definition init_manager :: "(string \<Rightarrow> int) \<Rightarrow> entity \<Rightarrow> object_state \<Rightarrow> error + state_manager" where
  "init_manager H obj initial_state =
     (if initial_state \<noteq> NEW \<and> initial_state \<noteq> CLEAN then Inl (InvalidInitialState initial_state)
      else Inr \<lparr>state = initial_state, last_state_hash = H (get_state_string obj)\<rparr>)"

text \<open>\<^verbatim>\<open>__get_state\<close>, the getter of the property \<^verbatim>\<open>state\<close>\<close>

definition get_state :: "(string \<Rightarrow> int) \<Rightarrow> entity \<Rightarrow> state_manager \<Rightarrow> object_state" where
  "get_state H obj m =
     (if state m = CLEAN
      then (if H (get_state_string obj) \<noteq> last_state_hash m then DIRTY else CLEAN)
      else state m)"

definition allowed_transitions :: "(object_state \<times> object_state) list" where
  "allowed_transitions =
     [(NEW, DIRTY), (NEW, DELETED), (CLEAN, DIRTY), (CLEAN, DELETED), (DIRTY, DELETED), (DIRTY, CLEAN)]"

text \<open>
  \<^verbatim>\<open>__set_state\<close>, the setter of the property \<^verbatim>\<open>state\<close>. The error message names
  \<^verbatim>\<open>self.__state\<close>, the recorded state, not the observed one.
\<close>

definition set_state :: "(string \<Rightarrow> int) \<Rightarrow> entity \<Rightarrow> state_manager \<Rightarrow> object_state \<Rightarrow> error + state_manager" where
  "set_state H obj m target =
     (if (get_state H obj m, target) \<notin> set allowed_transitions
      then Inl (InvalidStateTransition (state m) target)
      else Inr (m\<lparr>state := target\<rparr>))"

text \<open>
  \<^verbatim>\<open>reset_state\<close>: the assignment \<^verbatim>\<open>self.state = OBJECT_STATES.CLEAN\<close> goes through the
  property setter, then the hash is stored.
\<close>

definition reset_state :: "(string \<Rightarrow> int) \<Rightarrow> entity \<Rightarrow> state_manager \<Rightarrow> error + state_manager" where
  "reset_state H obj m =
     (case set_state H obj m CLEAN of
        Inl e \<Rightarrow> Inl e
      | Inr m' \<Rightarrow> Inr (m'\<lparr>last_state_hash := H (get_state_string obj)\<rparr>))"

section \<open>EntityCache\<close>

text \<open>
  The list \<^verbatim>\<open>__entities\<close> and the two dictionaries \<^verbatim>\<open>__id_map\<close> and \<^verbatim>\<open>__slug_map\<close>.
  The dictionaries are \<^verbatim>\<open>WeakValueDictionary\<close>s: an entry disappears when its entity is
  garbage-collected. Every entity of the store is taken to be alive (the caller or the
  list holds it), so the dictionaries are plain maps to addresses.
\<close>

record entity_cache =
  entities :: "addr list"
  id_map :: "int \<rightharpoonup> addr"
  slug_map :: "string \<rightharpoonup> addr"

definition empty_cache :: entity_cache where
  "empty_cache = \<lparr>entities = [], id_map = Map.empty, slug_map = Map.empty\<rparr>"

definition get_by_id :: "entity_cache \<Rightarrow> int \<Rightarrow> addr option" where
  "get_by_id c entity_id = id_map c entity_id"

definition has_id :: "entity_cache \<Rightarrow> int \<Rightarrow> bool" where
  "has_id c entity_id = (id_map c entity_id \<noteq> None)"

definition get_by_slug :: "entity_cache \<Rightarrow> string \<Rightarrow> addr option" where
  "get_by_slug c entity_slug = slug_map c entity_slug"

definition has_slug :: "entity_cache \<Rightarrow> string \<Rightarrow> bool" where
  "has_slug c entity_slug = (slug_map c entity_slug \<noteq> None)"

text \<open>
  The mutating methods return the outcome (\<open>None\<close> when the method returns, the
  exception otherwise) together with the cache as the call leaves it: an exception
  raised half-way keeps the changes made before it.
\<close>

definition cache_add :: "heap \<Rightarrow> entity_cache \<Rightarrow> addr \<Rightarrow> error option \<times> entity_cache" where
  "cache_add h c a =
     (case ent_id (h a) of
        None \<Rightarrow> (Some IdIsNone, c)
      | Some i \<Rightarrow>
          let c1 = c\<lparr>id_map := (id_map c)(i \<mapsto> a)\<rparr>;
              c2 = (case ent_slug (h a) of
                      None \<Rightarrow> c1
                    | Some s \<Rightarrow> c1\<lparr>slug_map := (slug_map c1)(s \<mapsto> a)\<rparr>)
          in (None, c2\<lparr>entities := entities c2 @ [a]\<rparr>))"

text \<open>
  \<^verbatim>\<open>del self.__id_map[entity.id]\<close> raises \<^verbatim>\<open>KeyError\<close> for an absent key (\<^verbatim>\<open>None\<close> is
  never a key); \<^verbatim>\<open>self.__slug_map.pop(entity.slug, None)\<close> never raises;
  \<^verbatim>\<open>self.__entities.remove(entity)\<close> drops the first occurrence and raises
  \<^verbatim>\<open>ValueError\<close> when there is none.
\<close>

definition cache_remove :: "heap \<Rightarrow> entity_cache \<Rightarrow> addr \<Rightarrow> error option \<times> entity_cache" where
  "cache_remove h c a =
     (case ent_id (h a) of
        None \<Rightarrow> (Some KeyError, c)
      | Some i \<Rightarrow>
          if id_map c i = None then (Some KeyError, c)
          else
            let c1 = c\<lparr>id_map := (id_map c)(i := None)\<rparr>;
                c2 = (case ent_slug (h a) of
                        None \<Rightarrow> c1
                      | Some s \<Rightarrow> c1\<lparr>slug_map := (slug_map c1)(s := None)\<rparr>)
            in if a \<in> set (entities c2) then (None, c2\<lparr>entities := remove1 a (entities c2)\<rparr>)
               else (Some NotInList, c2))"

definition cache_replace :: "heap \<Rightarrow> entity_cache \<Rightarrow> addr \<Rightarrow> error option \<times> entity_cache" where
  "cache_replace h c a =
     (case ent_id (h a) of
        None \<Rightarrow> (Some KeyError, c)
      | Some i \<Rightarrow>
          (case id_map c i of
             None \<Rightarrow> (Some KeyError, c)
           | Some old_entity \<Rightarrow>
               (case cache_remove h c old_entity of
                  (Some e, c') \<Rightarrow> (Some e, c')
                | (None, c') \<Rightarrow> cache_add h c' a)))"

text \<open>
  The two indices agree with the entities' present keys: what the cache holds under an
  id (a slug) is an entity with that id (that slug). The empty cache has the property,
  and the three methods keep it as long as no entity's id or slug is changed while it
  is indexed under it.
\<close>

definition cache_in_sync :: "heap \<Rightarrow> entity_cache \<Rightarrow> bool" where
  "cache_in_sync h c =
     ((\<forall>i a. id_map c i = Some a \<longrightarrow> ent_id (h a) = Some i) \<and>
      (\<forall>s a. slug_map c s = Some a \<longrightarrow> ent_slug (h a) = Some s))"

section \<open>EntityIdGenerator\<close>

text \<open>
  Modelled from the spec: the generator function \<^verbatim>\<open>id_generator\<close> of \<^verbatim>\<open>everest.utils\<close>,
  which \<^verbatim>\<open>__get_id_generator\<close> instantiates and no source file defines. By section 4.1
  the ids of a class start at the base 0 and each is one more than the last: the first
  \<^verbatim>\<open>next()\<close> of a fresh generator yields 0, every later \<^verbatim>\<open>next()\<close> yields one more
  than the value yielded before. A started generator is the value it last yielded.
\<close>

definition id_generator_first :: int where
  "id_generator_first = 0"

definition id_generator_next :: "int \<Rightarrow> int" where
  "id_generator_next count = count + 1"

record entity_id_generator =
  id_gen_map :: "cls \<rightharpoonup> int"
  next_id_map :: "cls \<rightharpoonup> int"

definition new_id_generator :: entity_id_generator where
  "new_id_generator = \<lparr>id_gen_map = Map.empty, next_id_map = Map.empty\<rparr>"

definition get_current_id :: "entity_id_generator \<Rightarrow> cls \<Rightarrow> int" where
  "get_current_id g entity_class = (case next_id_map g entity_class of None \<Rightarrow> 0 | Some n \<Rightarrow> n)"

text \<open>
  \<^verbatim>\<open>__get_id_generator\<close>: the generator of the class (its last yielded value), created
  and advanced once when the class has none.
\<close>

definition get_id_generator :: "entity_id_generator \<Rightarrow> cls \<Rightarrow> int \<times> entity_id_generator" where
  "get_id_generator g ent_cls =
     (case id_gen_map g ent_cls of
        None \<Rightarrow>
          (id_generator_first,
           g\<lparr>id_gen_map := (id_gen_map g)(ent_cls \<mapsto> id_generator_first),
             next_id_map := (next_id_map g)(ent_cls \<mapsto> id_generator_first)\<rparr>)
      | Some id_gen \<Rightarrow> (id_gen, g))"

definition get_next_id :: "entity_id_generator \<Rightarrow> cls \<Rightarrow> int \<times> entity_id_generator" where
  "get_next_id g entity_class =
     (let (id_gen, g1) = get_id_generator g entity_class;
          next_id = id_generator_next id_gen
      in (next_id - 1,
          g1\<lparr>id_gen_map := (id_gen_map g1)(entity_class \<mapsto> next_id),
             next_id_map := (next_id_map g1)(entity_class \<mapsto> next_id)\<rparr>))"

text \<open>Successive calls of \<^verbatim>\<open>get_next_id\<close>, one for each class of the list, with the ids they return.\<close>

fun issue_ids :: "entity_id_generator \<Rightarrow> cls list \<Rightarrow> (cls \<times> int) list \<times> entity_id_generator" where
  "issue_ids g [] = ([], g)"
| "issue_ids g (c # cs) =
     (let (i, g1) = get_next_id g c;
          (rest, g2) = issue_ids g1 cs
      in ((c, i) # rest, g2))"

section \<open>UnitOfWork and Session\<close>

text \<open>
  The calls the repository receives from \<^verbatim>\<open>commit\<close>, logged in order. The repository
  is an external collaborator; its calls are taken to return.
\<close>

datatype repo_call = Replace addr | Add addr | Remove addr

text \<open>
  One session with its unit of work, on one store: the entities, the dictionary
  \<^verbatim>\<open>__entity_set_map\<close> of the unit of work (classes in the order \<^verbatim>\<open>keys()\<close> yields
  them, each live set in its iteration order; the sets are \<^verbatim>\<open>WeakSet\<close>s of entities that
  are all taken to be alive), the log of the repository, and the dictionary
  \<^verbatim>\<open>__cache_map\<close> of the session's cache manager.
\<close>

record system =
  heap :: heap
  entity_set_map :: "(cls \<times> addr list) list"
  repo_calls :: "repo_call list"
  cache_map :: "cls \<rightharpoonup> entity_cache"

text \<open>
  Modelled from the spec: the attribute \<^verbatim>\<open>state\<close> of an entity, which \<^verbatim>\<open>commit\<close> and
  \<^verbatim>\<open>__object_iterator\<close> read and no source file defines. By section 4.4 it is the
  observed state of the entity's tracker; an entity without a tracker has none to read.
\<close>

definition entity_state :: "(string \<Rightarrow> int) \<Rightarrow> entity \<Rightarrow> error + object_state" where
  "entity_state H ent =
     (case everest ent of None \<Rightarrow> Inl AttributeError | Some m \<Rightarrow> Inr (get_state H ent m))"

text \<open>
  \<^verbatim>\<open>register_new(self, entity_class, entity)\<close>. The tracker is built by
  \<^verbatim>\<open>ObjectStateManager(OBJECT_STATES.NEW)\<close>, one argument for a constructor that takes
  the tracked object and the initial state: Python raises \<^verbatim>\<open>TypeError\<close> there, and the
  statements after it (the id assignment, the insertion into the live set) never run.
\<close>

definition register_new :: "system \<Rightarrow> cls \<Rightarrow> addr \<Rightarrow> error option \<times> system" where
  "register_new s entity_class a =
     (if everest (heap s a) \<noteq> None then (Some AlreadyRegistered, s)
      else (Some TypeError, s))"

text \<open>
  The body of the inner loop of \<^verbatim>\<open>commit\<close>: the repository call the entity's state
  selects, then \<^verbatim>\<open>ent.__everest__.reset_state()\<close>.
\<close>

definition commit_entity :: "(string \<Rightarrow> int) \<Rightarrow> system \<Rightarrow> addr \<Rightarrow> error option \<times> system" where
  "commit_entity H s a =
     (case entity_state H (heap s a) of
        Inl e \<Rightarrow> (Some e, s)
      | Inr st \<Rightarrow>
          let s1 = (if st = DIRTY then s\<lparr>repo_calls := repo_calls s @ [Replace a]\<rparr>
                    else if st = NEW then s\<lparr>repo_calls := repo_calls s @ [Add a]\<rparr>
                    else if st = DELETED then s\<lparr>repo_calls := repo_calls s @ [Remove a]\<rparr>
                    else s)
          in (case everest (heap s1 a) of
                None \<Rightarrow> (Some AttributeError, s1)
              | Some m \<Rightarrow>
                  (case reset_state H (heap s1 a) m of
                     Inl e \<Rightarrow> (Some e, s1)
                   | Inr m' \<Rightarrow> (None, s1\<lparr>heap := (heap s1)(a := (heap s1 a)\<lparr>everest := Some m'\<rparr>)\<rparr>))))"

fun commit_entities :: "(string \<Rightarrow> int) \<Rightarrow> system \<Rightarrow> addr list \<Rightarrow> error option \<times> system" where
  "commit_entities H s [] = (None, s)"
| "commit_entities H s (a # as) =
     (case commit_entity H s a of
        (Some e, s') \<Rightarrow> (Some e, s')
      | (None, s') \<Rightarrow> commit_entities H s' as)"

text \<open>
  The outer loop: \<^verbatim>\<open>for ent_cls in self.__entity_set_map.keys()\<close> over
  \<^verbatim>\<open>self.__entity_set_map[ent_cls]\<close>, that is, over the entries of the dictionary.
\<close>

fun commit_sets :: "(string \<Rightarrow> int) \<Rightarrow> system \<Rightarrow> (cls \<times> addr list) list \<Rightarrow> error option \<times> system" where
  "commit_sets H s [] = (None, s)"
| "commit_sets H s ((ent_cls, ents) # rest) =
     (case commit_entities H s ents of
        (Some e, s') \<Rightarrow> (Some e, s')
      | (None, s') \<Rightarrow> commit_sets H s' rest)"

definition commit :: "(string \<Rightarrow> int) \<Rightarrow> system \<Rightarrow> error option \<times> system" where
  "commit H s = commit_sets H s (entity_set_map s)"

text \<open>
  \<^verbatim>\<open>self.__entity_set_map[key]\<close> on the \<^verbatim>\<open>defaultdict\<close>: a class without a live set gets
  an empty one.
\<close>

definition entity_set :: "system \<Rightarrow> cls \<Rightarrow> addr list \<times> system" where
  "entity_set s key =
     (case map_of (entity_set_map s) key of
        Some ents \<Rightarrow> (ents, s)
      | None \<Rightarrow> ([], s\<lparr>entity_set_map := entity_set_map s @ [(key, [])]\<rparr>))"

text \<open>
  \<^verbatim>\<open>__object_iterator\<close> over one live set, as the sequence of what the generator does:
  it yields an entity (\<open>Inr\<close>) or raises and ends (\<open>Inl\<close>).
\<close>

fun object_iterator :: "(string \<Rightarrow> int) \<Rightarrow> heap \<Rightarrow> object_state \<Rightarrow> addr list \<Rightarrow> (error + addr) list" where
  "object_iterator H h st [] = []"
| "object_iterator H h st (a # as) =
     (case entity_state H (h a) of
        Inl e \<Rightarrow> [Inl e]
      | Inr st' \<Rightarrow> (if st' = st then [Inr a] else []) @ object_iterator H h st as)"

text \<open>\<^verbatim>\<open>EntityCacheManager.__getitem__\<close>: the cache of the class, created empty on first use.\<close>

definition cache_mgr_getitem :: "system \<Rightarrow> cls \<Rightarrow> entity_cache \<times> system" where
  "cache_mgr_getitem s entity_class =
     (case cache_map s entity_class of
        None \<Rightarrow> (empty_cache, s\<lparr>cache_map := (cache_map s)(entity_class \<mapsto> empty_cache)\<rparr>)
      | Some cache \<Rightarrow> (cache, s))"

text \<open>
  \<^verbatim>\<open>Session.add\<close>. After the two duplicate checks the source calls
  \<^verbatim>\<open>self.__unit_of_work.register_new(entity)\<close>, one argument for a method declared with
  two (\<^verbatim>\<open>entity_class, entity\<close>): Python raises \<^verbatim>\<open>TypeError\<close> at the call, and
  \<^verbatim>\<open>cache.add(entity)\<close> on the next line never runs.
\<close>

definition session_add :: "system \<Rightarrow> cls \<Rightarrow> addr \<Rightarrow> error option \<times> system" where
  "session_add s entity_class a =
     (let (cache, s1) = cache_mgr_getitem s entity_class
      in case (case ent_id (heap s1 a) of
                 None \<Rightarrow> None
               | Some i \<Rightarrow> if has_id cache i then Some (DuplicateKey i) else None) of
           Some e \<Rightarrow> (Some e, s1)
         | None \<Rightarrow>
             (case (case ent_slug (heap s1 a) of
                      None \<Rightarrow> None
                    | Some sl \<Rightarrow> if has_slug cache sl then Some (DuplicateSlug sl) else None) of
                Some e \<Rightarrow> (Some e, s1)
              | None \<Rightarrow> (Some TypeError, s1)))"

text \<open>
  The loop of \<^verbatim>\<open>Session.get_by_slug\<close> over the generator: the first yielded entity
  whose slug equals the one asked for.
\<close>

fun first_with_slug :: "heap \<Rightarrow> string option \<Rightarrow> (error + addr) list \<Rightarrow> error + addr option" where
  "first_with_slug h entity_slug [] = Inr None"
| "first_with_slug h entity_slug (Inl e # evs) = Inl e"
| "first_with_slug h entity_slug (Inr a # evs) =
     (if ent_slug (h a) = entity_slug then Inr (Some a) else first_with_slug h entity_slug evs)"

text \<open>
  \<^verbatim>\<open>Session.get_by_slug\<close>; the slug asked for may be \<^verbatim>\<open>None\<close>, which is never a key
  of the slug map.
\<close>

definition session_get_by_slug ::
    "(string \<Rightarrow> int) \<Rightarrow> system \<Rightarrow> cls \<Rightarrow> string option \<Rightarrow> (error + addr option) \<times> system" where
  "session_get_by_slug H s entity_cls entity_slug =
     (let (cache, s1) = cache_mgr_getitem s entity_cls
      in case (case entity_slug of None \<Rightarrow> None | Some sl \<Rightarrow> get_by_slug cache sl) of
           Some found_ent \<Rightarrow> (Inr (Some found_ent), s1)
         | None \<Rightarrow>
             (let (ents, s2) = entity_set s1 entity_cls
              in (first_with_slug (heap s2) entity_slug (object_iterator H (heap s2) NEW ents), s2)))"

text \<open>The cache of a class as the session sees it: empty when the class has none yet.\<close>

definition class_cache :: "system \<Rightarrow> cls \<Rightarrow> entity_cache" where
  "class_cache s entity_class = fst (cache_mgr_getitem s entity_class)"

text \<open>The entities of all live sets, in the order \<^verbatim>\<open>commit\<close> visits them.\<close>

definition live_entities :: "system \<Rightarrow> addr list" where
  "live_entities s = concat (map snd (entity_set_map s))"

text \<open>The repository call that the state of an entity selects, as section 4.4 lists them.\<close>

definition dispatch :: "(string \<Rightarrow> int) \<Rightarrow> heap \<Rightarrow> addr \<Rightarrow> repo_call list" where
  "dispatch H h a =
     (case entity_state H (h a) of
        Inr DIRTY \<Rightarrow> [Replace a]
      | Inr NEW \<Rightarrow> [Add a]
      | Inr DELETED \<Rightarrow> [Remove a]
      | _ \<Rightarrow> [])"

section \<open>Auxiliary notions and examples\<close>

text \<open>
  The generator of a class and the recorded next id agree (both absent, or the same
  value): the state \<^verbatim>\<open>get_next_id\<close> leaves a class in.
\<close>

definition gen_ok :: "entity_id_generator \<Rightarrow> cls \<Rightarrow> bool" where
  "gen_ok g C = (id_gen_map g C = next_id_map g C)"

text \<open>
  The public items of an entity in the order its dictionary yields them: what
  \<^verbatim>\<open>__get_state_string\<close> makes its tokens from.
\<close>

definition public_items :: "entity \<Rightarrow> (string \<times> string) list" where
  "public_items obj = filter (\<lambda>(k, v). public k) (ent_dict obj)"

text \<open>A name or a rendered value without the two characters the state string is put together with.\<close>

definition delimiter_free :: "string \<Rightarrow> bool" where
  "delimiter_free x = (CHR '':'' \<notin> set x \<and> CHR '','' \<notin> set x)"

text \<open>
  Three entities with the public fields \<open>a\<close> and \<open>i\<close>: two that yield them in the same
  order and differ in their underscore fields and ids, one that yields them in the
  other order.
\<close>

definition entity_a_i :: entity where
  "entity_a_i =
     \<lparr>ent_id = None, ent_slug = None, ent_dict = [(''a'', ''1''), (''_x'', ''9''), (''i'', ''2'')], everest = None\<rparr>"

definition entity_a_i' :: entity where
  "entity_a_i' =
     \<lparr>ent_id = Some 3, ent_slug = None, ent_dict = [(''a'', ''1''), (''i'', ''2''), (''_y'', ''0'')], everest = None\<rparr>"

definition entity_i_a :: entity where
  "entity_i_a =
     \<lparr>ent_id = None, ent_slug = None, ent_dict = [(''i'', ''2''), (''a'', ''1'')], everest = None\<rparr>"

definition no_entity :: entity where
  "no_entity = \<lparr>ent_id = None, ent_slug = None, ent_dict = [], everest = None\<rparr>"

text \<open>A session on a fresh unit of work, with no cache yet.\<close>

definition new_system :: "heap \<Rightarrow> system" where
  "new_system h = \<lparr>heap = h, entity_set_map = [], repo_calls = [], cache_map = Map.empty\<rparr>"



text \<open>
  A session whose cache of class \<open>Cls\<close> holds entity 0 under id 5 and slug \<open>five\<close>;
  entity 1 carries the same id, entity 2 the same slug.
\<close>

definition session_example :: system where
  "session_example =
     (new_system ((\<lambda>_. no_entity)
        (0 := \<lparr>ent_id = Some 5, ent_slug = Some ''five'', ent_dict = [], everest = None\<rparr>,
         1 := \<lparr>ent_id = Some 5, ent_slug = None, ent_dict = [], everest = None\<rparr>,
         2 := \<lparr>ent_id = None, ent_slug = Some ''five'', ent_dict = [], everest = None\<rparr>)))
     \<lparr>cache_map := [''Cls'' \<mapsto> \<lparr>entities = [0], id_map = [5 \<mapsto> 0], slug_map = [''five'' \<mapsto> 0]\<rparr>]\<rparr>"

section \<open>Properties of the state tracker\<close>

lemma member_allowed_transitions:
  "(s, t) \<in> set allowed_transitions \<longleftrightarrow>
     (s = NEW \<and> t = DIRTY) \<or> (s = NEW \<and> t = DELETED) \<or> (s = CLEAN \<and> t = DIRTY) \<or>
     (s = CLEAN \<and> t = DELETED) \<or> (s = DIRTY \<and> t = DELETED) \<or> (s = DIRTY \<and> t = CLEAN)"
  by (auto simp: allowed_transitions_def)

text \<open>
  C2. Setting the state to \<open>target\<close> succeeds (and records \<open>target\<close>) exactly when the
  pair of the observed, dirty-checked state and \<open>target\<close> is one of NEW to DIRTY, NEW to
  DELETED, CLEAN to DIRTY, CLEAN to DELETED, DIRTY to DELETED, DIRTY to CLEAN; every
  other pair fails with the invalid-transition error and leaves the tracker as it was.
\<close>

theorem set_state_transition_table:
  "(set_state H obj m target = Inr (m\<lparr>state := target\<rparr>) \<longleftrightarrow>
      (get_state H obj m, target) \<in>
        {(NEW, DIRTY), (NEW, DELETED), (CLEAN, DIRTY), (CLEAN, DELETED), (DIRTY, DELETED), (DIRTY, CLEAN)}) \<and>
   (set_state H obj m target = Inl (InvalidStateTransition (state m) target) \<longleftrightarrow>
      (get_state H obj m, target) \<notin>
        {(NEW, DIRTY), (NEW, DELETED), (CLEAN, DIRTY), (CLEAN, DELETED), (DIRTY, DELETED), (DIRTY, CLEAN)})"
  by (cases "get_state H obj m"; cases target; simp add: set_state_def member_allowed_transitions)

lemma reset_state_baseline:
  "reset_state H obj m = Inr m' \<Longrightarrow> state m' = CLEAN \<and> last_state_hash m' = H (get_state_string obj)"
  by (auto simp: reset_state_def set_state_def split: if_splits)

lemma init_manager_baseline:
  "init_manager H obj s = Inr m \<Longrightarrow> state m = s \<and> last_state_hash m = H (get_state_string obj)"
  by (auto simp: init_manager_def split: if_splits)

lemma reset_state_Inr_iff:
  "(\<exists>m'. reset_state H obj m = Inr m') \<longleftrightarrow> get_state H obj m = DIRTY"
  by (cases "get_state H obj m") (simp_all add: reset_state_def set_state_def member_allowed_transitions)


text \<open>
  C4. \<^verbatim>\<open>reset_state\<close> assigns through the property setter, which checks the transition
  table: for a tracker that is NEW, DELETED, or CLEAN with its entity unchanged, the
  reset raises the invalid-transition error instead of recording CLEAN. (It returns
  only for a tracker observed DIRTY, see \<open>reset_state_Inr_iff\<close>.)
\<close>

theorem reset_state_raises:
  "reset_state H obj \<lparr>state = NEW, last_state_hash = x\<rparr> = Inl (InvalidStateTransition NEW CLEAN) \<and>
   reset_state H obj \<lparr>state = DELETED, last_state_hash = x\<rparr> = Inl (InvalidStateTransition DELETED CLEAN) \<and>
   reset_state H obj \<lparr>state = CLEAN, last_state_hash = H (get_state_string obj)\<rparr> =
     Inl (InvalidStateTransition CLEAN CLEAN)"
  by (simp add: reset_state_def set_state_def get_state_def member_allowed_transitions)

text \<open>
  C9, as stated, fails: two entities with the same two public fields \<open>a\<close> and \<open>i\<close>,
  yielded by their dictionaries in different orders, have different state strings and
  different fingerprints, and a tracker whose baseline was taken from the first reads
  the second as DIRTY. (In CPython 2.7 the two names hash to the same slot of a small
  dictionary, the hashes being equal modulo 8, so the attribute assigned first is the
  one yielded first.)
\<close>

theorem fingerprint_order_counterexample:
  "set (ent_dict \<lparr>ent_id = None, ent_slug = None, ent_dict = [(''a'', ''1''), (''i'', ''2'')], everest = None\<rparr>) =
   set (ent_dict \<lparr>ent_id = None, ent_slug = None, ent_dict = [(''i'', ''2''), (''a'', ''1'')], everest = None\<rparr>) \<and>
   string_hash ''a'' mod 8 = string_hash ''i'' mod 8 \<and>
   get_state_string
     \<lparr>ent_id = None, ent_slug = None, ent_dict = [(''a'', ''1''), (''i'', ''2'')], everest = None\<rparr> = ''a:1,i:2'' \<and>
   get_state_string
     \<lparr>ent_id = None, ent_slug = None, ent_dict = [(''i'', ''2''), (''a'', ''1'')], everest = None\<rparr> = ''i:2,a:1'' \<and>
   string_hash (get_state_string
     \<lparr>ent_id = None, ent_slug = None, ent_dict = [(''a'', ''1''), (''i'', ''2'')], everest = None\<rparr>) \<noteq>
   string_hash (get_state_string
     \<lparr>ent_id = None, ent_slug = None, ent_dict = [(''i'', ''2''), (''a'', ''1'')], everest = None\<rparr>) \<and>
   get_state string_hash
     \<lparr>ent_id = None, ent_slug = None, ent_dict = [(''i'', ''2''), (''a'', ''1'')], everest = None\<rparr>
     \<lparr>state = CLEAN, last_state_hash = string_hash (get_state_string
        \<lparr>ent_id = None, ent_slug = None, ent_dict = [(''a'', ''1''), (''i'', ''2'')], everest = None\<rparr>)\<rparr> = DIRTY"
  by code_simp

text \<open>
  The state string is made from the public items alone, and from delimiter-free items
  it can be read back: the commas separate the tokens and the first colon of a token
  separates the name from the value.
\<close>

lemma get_state_string_public_items:
  "get_state_string obj = join '','' (map (\<lambda>(k, v). k @ '':'' @ v) (public_items obj))"
  by (simp add: get_state_string_def public_items_def)

lemma split_at_delimiter:
  "c \<notin> set x \<Longrightarrow> c \<notin> set x' \<Longrightarrow> x @ c # y = x' @ c # y' \<Longrightarrow> x = x' \<and> y = y'"
proof (induction x arbitrary: x')
  case Nil
  then show ?case by (cases x') auto
next
  case (Cons a x)
  then show ?case by (cases x') auto
qed

lemma token_inj:
  assumes "delimiter_free k" and "delimiter_free k'" and "k @ '':'' @ v = k' @ '':'' @ v'"
  shows "k = k' \<and> v = v'"
  using assms split_at_delimiter [of "CHR '':''" k k' v v']
  by (simp add: delimiter_free_def)

lemma join_Nil_iff:
  "\<forall>t\<in>set ts. t \<noteq> [] \<Longrightarrow> join sep ts = [] \<longleftrightarrow> ts = []"
  by (induction sep ts rule: join.induct) auto

lemma join_comma_inj:
  assumes "\<forall>t\<in>set ts. t \<noteq> [] \<and> CHR '','' \<notin> set t"
    and "\<forall>u\<in>set us. u \<noteq> [] \<and> CHR '','' \<notin> set u"
    and "join '','' ts = join '','' us"
  shows "ts = us"
  using assms
proof (induction ts arbitrary: us)
  case Nil
  then show ?case using join_Nil_iff [of us "'',''"] by auto
next
  case (Cons t ts)
  show ?case
  proof (cases us)
    case Nil
    with Cons.prems show ?thesis using join_Nil_iff [of "t # ts" "'',''"] by auto
  next
    case us: (Cons u us')
    show ?thesis
    proof (cases ts)
      case Nil
      show ?thesis
      proof (cases us')
        case Nil
        with \<open>ts = []\<close> us Cons.prems show ?thesis by simp
      next
        case (Cons v vs)
        with \<open>ts = []\<close> us Cons.prems(3) have "t = u @ CHR '','' # join '','' (v # vs)" by simp
        then have "CHR '','' \<in> set t" by simp
        with Cons.prems(1) show ?thesis by simp
      qed
    next
      case ts: (Cons w ws)
      show ?thesis
      proof (cases us')
        case Nil
        with ts us Cons.prems(3) have "u = t @ CHR '','' # join '','' (w # ws)" by simp
        then have "CHR '','' \<in> set u" by simp
        with Cons.prems(2) us show ?thesis by simp
      next
        case (Cons v vs)
        with ts us Cons.prems(3)
        have "t @ CHR '','' # join '','' ts = u @ CHR '','' # join '','' us'" by simp
        with Cons.prems(1,2) us have "t = u" and j: "join '','' ts = join '','' us'"
          using split_at_delimiter [of "CHR '',''" t u "join '','' ts" "join '','' us'"] by auto
        from Cons.IH [OF _ _ j] Cons.prems(1,2) us have "ts = us'" by simp
        with \<open>t = u\<close> us show ?thesis by simp
      qed
    qed
  qed
qed

lemma tokens_inj:
  assumes "list_all (\<lambda>(k, v). delimiter_free k \<and> delimiter_free v) ps"
    and "list_all (\<lambda>(k, v). delimiter_free k \<and> delimiter_free v) qs"
    and "map (\<lambda>(k, v). k @ '':'' @ v) ps = map (\<lambda>(k, v). k @ '':'' @ v) qs"
  shows "ps = qs"
  using assms
proof (induction ps arbitrary: qs)
  case Nil
  then show ?case by simp
next
  case (Cons p ps)
  then obtain q qs' where qs: "qs = q # qs'" by (cases qs) auto
  obtain k v where p: "p = (k, v)" by (cases p)
  obtain k' v' where q: "q = (k', v')" by (cases q)
  from Cons.prems qs p q have "k @ '':'' @ v = k' @ '':'' @ v'" by simp
  with Cons.prems(1,2) qs p q have "k = k' \<and> v = v'" by (intro token_inj) simp_all
  moreover from Cons.IH [of qs'] Cons.prems qs have "ps = qs'" by simp
  ultimately show ?case using qs p q by simp
qed

lemma state_string_inj:
  assumes "list_all (\<lambda>(k, v). delimiter_free k \<and> delimiter_free v) (public_items e1)"
    and "list_all (\<lambda>(k, v). delimiter_free k \<and> delimiter_free v) (public_items e2)"
    and "get_state_string e1 = get_state_string e2"
  shows "public_items e1 = public_items e2"
proof -
  have tok: "\<forall>t\<in>set (map (\<lambda>(k, v). k @ '':'' @ v) ps). t \<noteq> [] \<and> CHR '','' \<notin> set t"
    if "list_all (\<lambda>(k, v). delimiter_free k \<and> delimiter_free v) ps" for ps
    using that by (auto simp: list_all_iff delimiter_free_def)
  from assms(3) have "join '','' (map (\<lambda>(k, v). k @ '':'' @ v) (public_items e1)) =
                     join '','' (map (\<lambda>(k, v). k @ '':'' @ v) (public_items e2))"
    by (simp add: get_state_string_public_items)
  from join_comma_inj [OF tok [OF assms(1)] tok [OF assms(2)] this]
  show ?thesis by (rule tokens_inj [OF assms(1,2)])
qed

lemma state_string_same_items:
  assumes "public_items e1 = public_items e2"
  shows "get_state_string e1 = get_state_string e2 \<and>
         H (get_state_string e1) = H (get_state_string e2) \<and>
         get_state H e1 m = get_state H e2 m"
  using assms by (simp add: get_state_string_public_items get_state_def)

text \<open>
  C9, amended. The fingerprint is the hash of the tokens of the public fields in the
  order the dictionary yields them, and nothing sorts them. Two entities whose public
  fields are yielded as the same sequence of name and value pairs have the same state
  string, the same fingerprint and the same dirty-check result, whatever their
  underscore fields are. When no public name or value contains a colon or a comma the
  converse holds as well: the state strings are equal only if the public fields are
  yielded as the same sequence of pairs, so the same fields yielded in another order
  give another state string.
\<close>

theorem fingerprint_iteration_order:
  "(public_items e1 = public_items e2 \<longrightarrow>
      get_state_string e1 = get_state_string e2 \<and>
      H (get_state_string e1) = H (get_state_string e2) \<and>
      get_state H e1 m = get_state H e2 m) \<and>
   (list_all (\<lambda>(k, v). delimiter_free k \<and> delimiter_free v) (public_items e1) \<and>
    list_all (\<lambda>(k, v). delimiter_free k \<and> delimiter_free v) (public_items e2) \<longrightarrow>
      (get_state_string e1 = get_state_string e2 \<longleftrightarrow> public_items e1 = public_items e2))"
  using state_string_same_items [of e1 e2 H m] state_string_inj [of e1 e2]
  by auto

theorem fingerprint_iteration_order_witness:
  "public_items entity_a_i = public_items entity_a_i' \<and>
   get_state_string entity_a_i = get_state_string entity_a_i' \<and>
   string_hash (get_state_string entity_a_i) = string_hash (get_state_string entity_a_i') \<and>
   list_all (\<lambda>(k, v). delimiter_free k \<and> delimiter_free v) (public_items entity_a_i) \<and>
   list_all (\<lambda>(k, v). delimiter_free k \<and> delimiter_free v) (public_items entity_i_a) \<and>
   set (public_items entity_a_i) = set (public_items entity_i_a) \<and>
   public_items entity_a_i \<noteq> public_items entity_i_a \<and>
   get_state_string entity_a_i \<noteq> get_state_string entity_i_a"
proof -
  have same: "public_items entity_a_i = public_items entity_a_i'"
    by code_simp
  have free: "list_all (\<lambda>(k, v). delimiter_free k \<and> delimiter_free v) (public_items entity_a_i)"
    "list_all (\<lambda>(k, v). delimiter_free k \<and> delimiter_free v) (public_items entity_i_a)"
    by code_simp+
  have items: "set (public_items entity_a_i) = set (public_items entity_i_a)"
    by code_simp
  have other: "public_items entity_a_i \<noteq> public_items entity_i_a"
    by code_simp
  from fingerprint_iteration_order
         [of entity_a_i entity_a_i' string_hash "\<lparr>state = CLEAN, last_state_hash = 0\<rparr>"]
       fingerprint_iteration_order
         [of entity_a_i entity_i_a string_hash "\<lparr>state = CLEAN, last_state_hash = 0\<rparr>"]
       same free items other
  show ?thesis by simp
qed

text \<open>
  The condition on the delimiters is needed: with a colon inside a name or a value, two
  different orders of the same items can give the same state string.
\<close>

lemma state_string_delimiters_needed:
  "get_state_string \<lparr>ent_id = None, ent_slug = None,
                      ent_dict = [(''a'', ''b:c''), (''a:b'', ''c'')], everest = None\<rparr> =
   get_state_string \<lparr>ent_id = None, ent_slug = None,
                      ent_dict = [(''a:b'', ''c''), (''a'', ''b:c'')], everest = None\<rparr>"
  by code_simp

section \<open>Properties of the entity cache\<close>

lemma empty_cache_in_sync: "cache_in_sync h empty_cache"
  by (simp add: cache_in_sync_def empty_cache_def)

lemma cache_add_in_sync:
  "cache_in_sync h c \<Longrightarrow> cache_add h c a = (None, c') \<Longrightarrow> cache_in_sync h c'"
  by (auto simp: cache_in_sync_def cache_add_def Let_def split: option.splits if_splits)

lemma cache_remove_in_sync:
  "cache_in_sync h c \<Longrightarrow> cache_remove h c a = (r, c') \<Longrightarrow> cache_in_sync h c'"
  by (auto simp: cache_in_sync_def cache_remove_def Let_def split: option.splits if_splits)

lemma cache_replace_in_sync:
  "cache_in_sync h c \<Longrightarrow> cache_replace h c a = (None, c') \<Longrightarrow> cache_in_sync h c'"
  by (auto simp: cache_replace_def split: option.splits prod.splits
           dest: cache_remove_in_sync cache_add_in_sync)

text \<open>
  With the indices in sync, the entity that \<^verbatim>\<open>replace\<close> swaps out is found under no id
  and under no slug.
\<close>

lemma cache_replace_old_gone:
  assumes sync: "cache_in_sync h c" and id2: "ent_id (h e2) = Some i" and old: "id_map c i = Some e"
    and ne: "e2 \<noteq> e" and ok: "cache_replace h c e2 = (None, c')"
  shows "get_by_id c' i = Some e2 \<and> (\<forall>k. get_by_id c' k \<noteq> Some e) \<and> (\<forall>s. get_by_slug c' s \<noteq> Some e)"
proof -
  from sync old have ide: "ent_id (h e) = Some i"
    by (simp add: cache_in_sync_def)
  have only_i: "k = i" if "id_map c k = Some e" for k
    using sync that ide by (auto simp: cache_in_sync_def)
  have only_s: "ent_slug (h e) = Some s" if "slug_map c s = Some e" for s
    using sync that by (simp add: cache_in_sync_def)
  from ok id2 old ide obtain c1 where
    rm: "cache_remove h c e = (None, c1)" and ad: "cache_add h c1 e2 = (None, c')"
    by (auto simp: cache_replace_def split: option.splits prod.splits)
  from rm ide old have id1: "id_map c1 = (id_map c)(i := None)"
    by (auto simp: cache_remove_def Let_def split: option.splits if_splits)
  from rm ide old have sl1: "slug_map c1 s \<noteq> Some e" for s
    using only_s [of s]
    by (auto simp: cache_remove_def Let_def split: option.splits if_splits)
  from ad id2 have id': "id_map c' = (id_map c1)(i \<mapsto> e2)"
    by (auto simp: cache_add_def Let_def split: option.splits)
  from ad id2 have sl': "slug_map c' s = slug_map c1 s \<or> slug_map c' s = Some e2" for s
    by (auto simp: cache_add_def Let_def split: option.splits)
  have "get_by_id c' i = Some e2"
    by (simp add: get_by_id_def id')
  moreover have "get_by_id c' k \<noteq> Some e" for k
    using only_i [of k] ne by (auto simp: get_by_id_def id' id1)
  moreover have "get_by_slug c' s \<noteq> Some e" for s
    using sl' [of s] sl1 [of s] ne by (auto simp: get_by_slug_def)
  ultimately show ?thesis by blast
qed

lemma cache_add_then:
  assumes "ent_id (h e) = Some i" and "ent_id (h e2) = Some i" and "e2 \<noteq> e"
  shows "\<exists>c1. cache_add h c e = (None, c1) \<and> get_by_id c1 i = Some e \<and>
           (\<exists>c2. cache_remove h c1 e = (None, c2) \<and> \<not> has_id c2 i \<and>
                 cache_remove h c2 e = (Some KeyError, c2)) \<and>
           (\<exists>c3. cache_replace h c1 e2 = (None, c3) \<and> get_by_id c3 i = Some e2 \<and>
                 get_by_id c3 i \<noteq> Some e \<and>
                 (case ent_slug (h e) of None \<Rightarrow> True | Some s \<Rightarrow> get_by_slug c3 s \<noteq> Some e))"
  using assms
  by (auto simp: cache_add_def cache_remove_def cache_replace_def get_by_id_def has_id_def
                 get_by_slug_def Let_def split: option.splits)

text \<open>
  C6. For any cache and entities \<open>e\<close> and \<open>e2\<close>, two objects with the same id \<open>i\<close>:
  \<^verbatim>\<open>add(e)\<close> returns, and then \<^verbatim>\<open>get_by_id(i)\<close> is \<open>e\<close>; from there \<^verbatim>\<open>remove(e)\<close>
  returns, \<^verbatim>\<open>has_id(i)\<close> is false and a second \<^verbatim>\<open>remove(e)\<close> raises the missing-entry
  error (\<^verbatim>\<open>KeyError\<close>) and changes nothing; and, instead of the removal, \<^verbatim>\<open>replace(e2)\<close>
  returns, \<^verbatim>\<open>get_by_id(i)\<close> is \<open>e2\<close> and no longer \<open>e\<close>, and looking up the slug of
  \<open>e\<close> does not give \<open>e\<close> either. When the indices of the cache were in sync with the
  entities' keys to begin with, \<open>e\<close> is then found under no id and no slug at all.
\<close>

theorem cache_round_trip:
  assumes "ent_id (h e) = Some i" and "ent_id (h e2) = Some i" and "e2 \<noteq> e"
  shows "\<exists>c1. cache_add h c e = (None, c1) \<and> get_by_id c1 i = Some e \<and>
           (\<exists>c2. cache_remove h c1 e = (None, c2) \<and> \<not> has_id c2 i \<and>
                 cache_remove h c2 e = (Some KeyError, c2)) \<and>
           (\<exists>c3. cache_replace h c1 e2 = (None, c3) \<and> get_by_id c3 i = Some e2 \<and>
                 get_by_id c3 i \<noteq> Some e \<and>
                 (case ent_slug (h e) of None \<Rightarrow> True | Some s \<Rightarrow> get_by_slug c3 s \<noteq> Some e) \<and>
                 (cache_in_sync h c \<longrightarrow>
                    (\<forall>k. get_by_id c3 k \<noteq> Some e) \<and> (\<forall>s. get_by_slug c3 s \<noteq> Some e)))"
proof -
  from cache_add_then [OF assms, of c] obtain c1 c2 c3 where
    ad: "cache_add h c e = (None, c1)" and g1: "get_by_id c1 i = Some e"
    and rm: "cache_remove h c1 e = (None, c2)" "\<not> has_id c2 i" "cache_remove h c2 e = (Some KeyError, c2)"
    and rp: "cache_replace h c1 e2 = (None, c3)" "get_by_id c3 i = Some e2" "get_by_id c3 i \<noteq> Some e"
      "case ent_slug (h e) of None \<Rightarrow> True | Some s \<Rightarrow> get_by_slug c3 s \<noteq> Some e"
    by blast
  have "(\<forall>k. get_by_id c3 k \<noteq> Some e) \<and> (\<forall>s. get_by_slug c3 s \<noteq> Some e)" if "cache_in_sync h c"
  proof -
    from that ad have "cache_in_sync h c1" by (rule cache_add_in_sync)
    moreover from g1 have "id_map c1 i = Some e" by (simp add: get_by_id_def)
    ultimately show ?thesis
      using cache_replace_old_gone [OF _ assms(2) _ assms(3) rp(1)] by blast
  qed
  with ad g1 rm rp show ?thesis by blast
qed

theorem cache_round_trip_witness:
  "ent_id (heap session_example 0) = Some 5 \<and> ent_id (heap session_example 1) = Some 5 \<and>
   cache_in_sync (heap session_example) empty_cache \<and>
   (\<exists>c1. cache_add (heap session_example) empty_cache 0 = (None, c1) \<and> get_by_id c1 5 = Some 0 \<and>
      (\<exists>c2. cache_remove (heap session_example) c1 0 = (None, c2) \<and> \<not> has_id c2 5 \<and>
            cache_remove (heap session_example) c2 0 = (Some KeyError, c2)) \<and>
      (\<exists>c3. cache_replace (heap session_example) c1 1 = (None, c3) \<and> get_by_id c3 5 = Some 1 \<and>
            get_by_id c3 5 \<noteq> Some 0 \<and> get_by_slug c3 ''five'' \<noteq> Some 0 \<and>
            (\<forall>k. get_by_id c3 k \<noteq> Some 0) \<and> (\<forall>s. get_by_slug c3 s \<noteq> Some 0)))"
proof -
  have h0: "ent_id (heap session_example 0) = Some 5" and h1: "ent_id (heap session_example 1) = Some 5"
    and sl: "ent_slug (heap session_example 0) = Some ''five''"
    by (simp_all add: session_example_def new_system_def)
  have ne: "(1::addr) \<noteq> 0" by simp
  have sync: "cache_in_sync (heap session_example) empty_cache" by (rule empty_cache_in_sync)
  from cache_round_trip [OF h0 h1 ne, of empty_cache] h0 h1 sl sync show ?thesis by simp
qed

text \<open>
  C10. \<^verbatim>\<open>EntityCache.add\<close>, called with an entity \<open>e2\<close> whose id \<open>i\<close> the cache of a
  class already holds for an entity \<open>e\<close>, raises nothing: the id entry now gives \<open>e2\<close>,
  so does the slug entry when \<open>e2\<close> has a slug (the slug map is untouched otherwise),
  and \<open>e\<close> is still in the list of entities, to which \<open>e2\<close> is appended.
  \<^verbatim>\<open>Session.add\<close> in the same situation raises the duplicate-key error and changes
  nothing.
\<close>

theorem cache_add_overwrites:
  assumes "cache_map s entity_class = Some c" and "ent_id (heap s e2) = Some i"
    and "id_map c i = Some e" and "e \<in> set (entities c)"
  shows "\<exists>c'. cache_add (heap s) c e2 = (None, c') \<and> get_by_id c' i = Some e2 \<and>
           (case ent_slug (heap s e2) of
              None \<Rightarrow> slug_map c' = slug_map c
            | Some sl \<Rightarrow> get_by_slug c' sl = Some e2) \<and>
           entities c' = entities c @ [e2] \<and> e \<in> set (entities c') \<and>
           session_add s entity_class e2 = (Some (DuplicateKey i), s)"
  using assms
  by (auto simp: cache_add_def get_by_id_def get_by_slug_def Let_def session_add_def
                 cache_mgr_getitem_def has_id_def split: option.splits)

theorem cache_add_overwrites_witness:
  "cache_map session_example ''Cls'' = Some \<lparr>entities = [0], id_map = [5 \<mapsto> 0], slug_map = [''five'' \<mapsto> 0]\<rparr> \<and>
   (\<exists>c'. cache_add (heap session_example)
            \<lparr>entities = [0], id_map = [5 \<mapsto> 0], slug_map = [''five'' \<mapsto> 0]\<rparr> 1 = (None, c') \<and>
          get_by_id c' 5 = Some 1 \<and> slug_map c' = [''five'' \<mapsto> 0] \<and> entities c' = [0, 1]) \<and>
   session_add session_example ''Cls'' 1 = (Some (DuplicateKey 5), session_example)"
proof -
  have c: "cache_map session_example ''Cls'' =
             Some \<lparr>entities = [0], id_map = [5 \<mapsto> 0], slug_map = [''five'' \<mapsto> 0]\<rparr>"
    and i: "ent_id (heap session_example 1) = Some 5"
    and sl: "ent_slug (heap session_example 1) = None"
    by (simp_all add: session_example_def new_system_def)
  have m: "id_map \<lparr>entities = [0], id_map = [5 \<mapsto> 0], slug_map = [''five'' \<mapsto> 0]\<rparr> 5 = Some (0::addr)"
    and e: "(0::addr) \<in> set (entities \<lparr>entities = [0], id_map = [5 \<mapsto> 0], slug_map = [''five'' \<mapsto> 0]\<rparr>)"
    by simp_all
  from cache_add_overwrites [OF c i m e] c sl show ?thesis by auto
qed

section \<open>Properties of the id allocator\<close>

lemma get_next_id_same:
  "gen_ok g C \<Longrightarrow> get_next_id g C = (i, g') \<Longrightarrow>
     i = get_current_id g C \<and> gen_ok g' C \<and> get_current_id g' C = get_current_id g C + 1"
  by (auto simp: gen_ok_def get_next_id_def get_id_generator_def get_current_id_def
                 id_generator_first_def id_generator_next_def Let_def split: option.splits)

lemma get_next_id_other:
  "D \<noteq> C \<Longrightarrow> get_next_id g D = (i, g') \<Longrightarrow>
     gen_ok g' C = gen_ok g C \<and> get_current_id g' C = get_current_id g C"
  by (auto simp: gen_ok_def get_next_id_def get_id_generator_def get_current_id_def
                 Let_def split: option.splits)

lemma issue_ids_from:
  "gen_ok g C \<Longrightarrow>
     map snd (filter (\<lambda>(c, i). c = C) (fst (issue_ids g cs))) =
       map (\<lambda>k. get_current_id g C + int k) [0 ..< count_list cs C] \<and>
     get_current_id (snd (issue_ids g cs)) C = get_current_id g C + int (count_list cs C) \<and>
     gen_ok (snd (issue_ids g cs)) C"
proof (induction cs arbitrary: g)
  case Nil
  then show ?case by simp
next
  case (Cons c cs)
  obtain i g1 where step: "get_next_id g c = (i, g1)" by (cases "get_next_id g c")
  obtain rest g2 where rest: "issue_ids g1 cs = (rest, g2)" by (cases "issue_ids g1 cs")
  show ?case
  proof (cases "c = C")
    case True
    from get_next_id_same [OF Cons.prems step [unfolded True]]
    have i: "i = get_current_id g C" and ok: "gen_ok g1 C"
      and cur: "get_current_id g1 C = get_current_id g C + 1" by simp_all
    from Cons.IH [OF ok] rest
    have ih: "map snd (filter (\<lambda>(c, i). c = C) rest) =
                map (\<lambda>k. get_current_id g1 C + int k) [0 ..< count_list cs C]"
      and ih2: "get_current_id g2 C = get_current_id g1 C + int (count_list cs C)"
      and ih3: "gen_ok g2 C" by simp_all
    have "map (\<lambda>k. get_current_id g C + int k) [0 ..< Suc (count_list cs C)] =
          get_current_id g C # map (\<lambda>k. get_current_id g1 C + int k) [0 ..< count_list cs C]"
      by (simp add: upt_conv_Cons cur map_Suc_upt [symmetric] del: upt_Suc)
    with True step rest i ih ih2 ih3 cur show ?thesis by simp
  next
    case False
    from get_next_id_other [OF False step] Cons.prems
    have ok: "gen_ok g1 C" and cur: "get_current_id g1 C = get_current_id g C" by simp_all
    from Cons.IH [OF ok] rest False step cur show ?thesis by simp
  qed
qed

lemma ids_increasing: "sorted_wrt (<) (map int [0 ..< n]) \<and> distinct (map int [0 ..< n])"
  by (simp add: sorted_wrt_map distinct_map inj_on_def sorted_wrt_iff_nth_less)

text \<open>
  C7. From a fresh allocator, after any sequence of \<^verbatim>\<open>get_next_id\<close> calls (for any
  classes, in any order), the ids returned for a class \<open>C\<close> are, in call order,
  0, 1, 2, ...: they start at 0, are strictly increasing and pairwise distinct; and
  \<^verbatim>\<open>get_current_id\<close> for \<open>C\<close> is then the number of ids issued for \<open>C\<close>, which is the
  next id to be issued, and is 0 on the fresh allocator.
\<close>

theorem id_allocator_sequence:
  "map snd (filter (\<lambda>(c, i). c = C) (fst (issue_ids new_id_generator cs))) =
     map int [0 ..< count_list cs C] \<and>
   sorted_wrt (<) (map snd (filter (\<lambda>(c, i). c = C) (fst (issue_ids new_id_generator cs)))) \<and>
   distinct (map snd (filter (\<lambda>(c, i). c = C) (fst (issue_ids new_id_generator cs)))) \<and>
   get_current_id (snd (issue_ids new_id_generator cs)) C = int (count_list cs C) \<and>
   fst (get_next_id (snd (issue_ids new_id_generator cs)) C) =
     get_current_id (snd (issue_ids new_id_generator cs)) C \<and>
   get_current_id new_id_generator C = 0"
proof -
  have ok: "gen_ok new_id_generator C" by (simp add: gen_ok_def new_id_generator_def)
  have z: "get_current_id new_id_generator C = 0"
    by (simp add: get_current_id_def new_id_generator_def)
  from issue_ids_from [OF ok, of cs] z
  have ids: "map snd (filter (\<lambda>(c, i). c = C) (fst (issue_ids new_id_generator cs))) =
               map int [0 ..< count_list cs C]"
    and cur: "get_current_id (snd (issue_ids new_id_generator cs)) C = int (count_list cs C)"
    and ok': "gen_ok (snd (issue_ids new_id_generator cs)) C" by simp_all
  obtain i g' where nx: "get_next_id (snd (issue_ids new_id_generator cs)) C = (i, g')"
    by (cases "get_next_id (snd (issue_ids new_id_generator cs)) C")
  from get_next_id_same [OF ok' nx] nx
  have "fst (get_next_id (snd (issue_ids new_id_generator cs)) C) =
          get_current_id (snd (issue_ids new_id_generator cs)) C" by simp
  with ids cur z ids_increasing [of "count_list cs C"] show ?thesis by simp
qed

section \<open>Properties of the session\<close>

text \<open>
  C5. When the entity carries a non-null id that the cache of its class holds, or a
  non-null slug that the cache holds, \<^verbatim>\<open>Session.add\<close> raises the duplicate-key error
  (for the id, or else for the slug) and the whole state after the call is the state
  before it: the store, the live sets of the unit of work, the repository log and the
  caches.
\<close>

theorem session_add_duplicate_key:
  assumes "(\<exists>i. ent_id (heap s a) = Some i \<and> has_id (class_cache s entity_class) i) \<or>
           (\<exists>sl. ent_slug (heap s a) = Some sl \<and> has_slug (class_cache s entity_class) sl)"
  shows "(\<exists>i. ent_id (heap s a) = Some i \<and> session_add s entity_class a = (Some (DuplicateKey i), s)) \<or>
         (\<exists>sl. ent_slug (heap s a) = Some sl \<and> session_add s entity_class a = (Some (DuplicateSlug sl), s))"
  using assms
  by (auto simp: session_add_def class_cache_def cache_mgr_getitem_def has_slug_def has_id_def
                 empty_cache_def split: option.splits)

theorem session_add_duplicate_key_witness:
  "has_id (class_cache session_example ''Cls'') 5 \<and>
   session_add session_example ''Cls'' 1 = (Some (DuplicateKey 5), session_example) \<and>
   has_slug (class_cache session_example ''Cls'') ''five'' \<and>
   session_add session_example ''Cls'' 2 = (Some (DuplicateSlug ''five''), session_example)"
proof -
  have i1: "ent_id (heap session_example 1) = Some 5" and s1: "ent_slug (heap session_example 1) = None"
    and i2: "ent_id (heap session_example 2) = None" and s2: "ent_slug (heap session_example 2) = Some ''five''"
    by (simp_all add: session_example_def new_system_def)
  have hi: "has_id (class_cache session_example ''Cls'') 5"
    and hs: "has_slug (class_cache session_example ''Cls'') ''five''"
    by (simp_all add: session_example_def new_system_def class_cache_def cache_mgr_getitem_def
                      has_id_def has_slug_def)
  from session_add_duplicate_key [of session_example 1 "''Cls''"] i1 s1 hi
  have "session_add session_example ''Cls'' 1 = (Some (DuplicateKey 5), session_example)" by simp
  moreover from session_add_duplicate_key [of session_example 2 "''Cls''"] i2 s2 hs
  have "session_add session_example ''Cls'' 2 = (Some (DuplicateSlug ''five''), session_example)" by simp
  ultimately show ?thesis using hi hs by simp
qed

text \<open>
  \<^verbatim>\<open>Session.add\<close> never returns: it raises one of the duplicate errors or the
  \<^verbatim>\<open>TypeError\<close> of the call of \<^verbatim>\<open>register_new\<close>, and leaves the store, the live sets
  and the repository log as they were. \<^verbatim>\<open>register_new\<close> itself never returns either.
\<close>

lemma session_add_never_returns:
  "fst (session_add s entity_class a) \<noteq> None \<and>
   heap (snd (session_add s entity_class a)) = heap s \<and>
   entity_set_map (snd (session_add s entity_class a)) = entity_set_map s \<and>
   repo_calls (snd (session_add s entity_class a)) = repo_calls s"
  by (auto simp: session_add_def cache_mgr_getitem_def split: option.splits)

lemma register_new_never_returns:
  "fst (register_new s entity_class a) \<noteq> None \<and> snd (register_new s entity_class a) = s"
  by (simp add: register_new_def)

text \<open>
  What \<^verbatim>\<open>Session.get_by_slug\<close> computes: the entry of the slug map of the class when
  there is one; otherwise, when every entity of the live set of the class has a tracker,
  the first entity of the live set that is observed NEW and has the slug.
\<close>

lemma first_with_slug_find:
  "\<forall>a\<in>set ents. everest (h a) \<noteq> None \<Longrightarrow>
     first_with_slug h entity_slug (object_iterator H h NEW ents) =
       Inr (find (\<lambda>a. entity_state H (h a) = Inr NEW \<and> ent_slug (h a) = entity_slug) ents)"
  by (induction ents) (auto simp: entity_state_def split: option.splits)

lemma session_get_by_slug_hit:
  "get_by_slug (class_cache s entity_cls) sl = Some a \<Longrightarrow>
     fst (session_get_by_slug H s entity_cls (Some sl)) = Inr (Some a)"
  by (auto simp: session_get_by_slug_def class_cache_def split: prod.splits)

lemma session_get_by_slug_miss:
  assumes "get_by_slug (class_cache s entity_cls) sl = None"
    and "\<forall>a\<in>set (fst (entity_set s entity_cls)). everest (heap s a) \<noteq> None"
  shows "fst (session_get_by_slug H s entity_cls (Some sl)) =
           Inr (find (\<lambda>a. entity_state H (heap s a) = Inr NEW \<and> ent_slug (heap s a) = Some sl)
                  (fst (entity_set s entity_cls)))"
  using assms
  by (auto simp: session_get_by_slug_def class_cache_def cache_mgr_getitem_def entity_set_def
                 first_with_slug_find split: prod.splits option.splits)

text \<open>
  C8. The scenario of the claim on the code: on a fresh session, an entity with id
  \<^verbatim>\<open>None\<close> and slug \<^verbatim>\<open>None\<close> is added, which raises \<^verbatim>\<open>TypeError\<close>; its slug is then set
  to \<open>x\<close>; \<^verbatim>\<open>get_by_slug(Cls, "x")\<close> returns \<^verbatim>\<open>None\<close>: the entity is not found.
\<close>

theorem slug_after_add_not_found:
  "(let (r, s1) = session_add (new_system (\<lambda>_. no_entity)) ''Cls'' 0;
        s2 = s1\<lparr>heap := (heap s1)(0 := (heap s1 0)\<lparr>ent_slug := Some ''x''\<rparr>)\<rparr>
    in r = Some TypeError \<and>
       fst (session_get_by_slug string_hash s2 ''Cls'' (Some ''x'')) = Inr None)"
  by code_simp

section \<open>Properties of commit\<close>

lemma get_state_string_everest [simp]:
  "get_state_string (ent\<lparr>everest := x\<rparr>) = get_state_string ent"
  by (simp add: get_state_string_def)

lemma commit_entity_effect:
  assumes "commit_entity H s a = (r, s')"
  shows "entity_set_map s' = entity_set_map s \<and> cache_map s' = cache_map s \<and>
         (\<forall>b. b \<noteq> a \<longrightarrow> heap s' b = heap s b) \<and>
         repo_calls s' = repo_calls s @ dispatch H (heap s) a \<and>
         (r = None \<longrightarrow> entity_state H (heap s a) = Inr DIRTY \<and> entity_state H (heap s' a) = Inr CLEAN)"
proof (cases "everest (heap s a)")
  case None
  with assms show ?thesis
    by (auto simp: commit_entity_def entity_state_def dispatch_def)
next
  case (Some m)
  show ?thesis
  proof (cases "get_state H (heap s a) m")
    case CLEAN
    with Some assms show ?thesis
      by (auto simp: commit_entity_def entity_state_def dispatch_def reset_state_def set_state_def
                     member_allowed_transitions)
  next
    case NEW
    with Some assms show ?thesis
      by (auto simp: commit_entity_def entity_state_def dispatch_def reset_state_def set_state_def
                     member_allowed_transitions)
  next
    case DELETED
    with Some assms show ?thesis
      by (auto simp: commit_entity_def entity_state_def dispatch_def reset_state_def set_state_def
                     member_allowed_transitions)
  next
    case DIRTY
    with Some assms show ?thesis
      by (auto simp: commit_entity_def entity_state_def dispatch_def reset_state_def set_state_def
                     member_allowed_transitions get_state_def)
  qed
qed

lemma dispatch_cong: "h' a = h a \<Longrightarrow> dispatch H h' a = dispatch H h a"
  by (simp add: dispatch_def)

lemma commit_entities_effect:
  assumes "commit_entities H s as = (r, s')"
  shows "entity_set_map s' = entity_set_map s \<and> cache_map s' = cache_map s \<and>
         (\<forall>b. b \<notin> set as \<longrightarrow> heap s' b = heap s b) \<and>
         (\<exists>n\<le>length as.
            repo_calls s' = repo_calls s @ concat (map (dispatch H (heap s)) (take n as)) \<and>
            (\<forall>b\<in>set (take (n - 1) as). entity_state H (heap s b) = Inr DIRTY)) \<and>
         (r = None \<longrightarrow>
            distinct as \<and>
            repo_calls s' = repo_calls s @ concat (map (dispatch H (heap s)) as) \<and>
            (\<forall>a\<in>set as. entity_state H (heap s a) = Inr DIRTY \<and> entity_state H (heap s' a) = Inr CLEAN))"
  using assms
proof (induction as arbitrary: s)
  case Nil
  then show ?case by simp
next
  case (Cons a as)
  obtain r1 s1 where step: "commit_entity H s a = (r1, s1)" by (cases "commit_entity H s a")
  note eff = commit_entity_effect [OF step]
  show ?case
  proof (cases r1)
    case (Some e)
    with step Cons.prems have "r = Some e" "s' = s1" by simp_all
    with eff have "repo_calls s' = repo_calls s @ concat (map (dispatch H (heap s)) (take 1 (a # as))) \<and>
       (\<forall>b\<in>set (take (1 - 1) (a # as)). entity_state H (heap s b) = Inr DIRTY)"
      by simp
    then have "\<exists>n\<le>length (a # as).
        repo_calls s' = repo_calls s @ concat (map (dispatch H (heap s)) (take n (a # as))) \<and>
        (\<forall>b\<in>set (take (n - 1) (a # as)). entity_state H (heap s b) = Inr DIRTY)"
      by (intro exI [of _ 1]) simp
    with eff \<open>r = Some e\<close> \<open>s' = s1\<close> show ?thesis by simp
  next
    case None
    with step Cons.prems have rest: "commit_entities H s1 as = (r, s')" by simp
    note ih = Cons.IH [OF rest]
    from eff None have a_dirty: "entity_state H (heap s a) = Inr DIRTY"
      and a_clean: "entity_state H (heap s1 a) = Inr CLEAN" by simp_all
    have other: "b \<noteq> a \<and> entity_state H (heap s b) = Inr DIRTY"
      if "entity_state H (heap s1 b) = Inr DIRTY" for b
    proof -
      from that a_clean have "b \<noteq> a" by auto
      with eff that show ?thesis by auto
    qed
    have a_none: "dispatch H (heap s1) a = []"
      using a_clean by (simp add: dispatch_def)
    have same: "dispatch H (heap s1) b = dispatch H (heap s) b" if "b \<noteq> a" for b
      using that eff by (intro dispatch_cong) auto
    from ih obtain n where n: "n \<le> length as"
      and calls: "repo_calls s' = repo_calls s1 @ concat (map (dispatch H (heap s1)) (take n as))"
      and before: "\<forall>b\<in>set (take (n - 1) as). entity_state H (heap s1 b) = Inr DIRTY"
      by blast
    have before': "\<forall>b\<in>set (take (n - 1) as). b \<noteq> a \<and> entity_state H (heap s b) = Inr DIRTY"
      using before other by blast
    have pre: "\<exists>k\<le>length (a # as).
        repo_calls s' = repo_calls s @ concat (map (dispatch H (heap s)) (take k (a # as))) \<and>
        (\<forall>b\<in>set (take (k - 1) (a # as)). entity_state H (heap s b) = Inr DIRTY)"
    proof (cases "n = 0")
      case True
      with calls eff have "repo_calls s' = repo_calls s @ concat (map (dispatch H (heap s)) (take 1 (a # as)))"
        by simp
      then show ?thesis by (intro exI [of _ 1]) simp
    next
      case False
      then obtain m where m: "n = Suc m" by (cases n) auto
      with n have lt: "m < length as" by simp
      have tk: "take n as = take m as @ [as ! m]"
        using lt m by (simp add: take_Suc_conv_app_nth)
      have front: "map (dispatch H (heap s1)) (take m as) = map (dispatch H (heap s)) (take m as)"
        using before' m same by simp
      show ?thesis
      proof (cases "as ! m = a")
        case True
        have "concat (map (dispatch H (heap s1)) (take n as)) =
                concat (map (dispatch H (heap s)) (take m as))"
          unfolding tk using True a_none by (simp add: front)
        with calls eff m
        have "repo_calls s' = repo_calls s @ concat (map (dispatch H (heap s)) (take n (a # as)))"
          by simp
        moreover have "\<forall>b\<in>set (take (n - 1) (a # as)). entity_state H (heap s b) = Inr DIRTY"
        proof (cases m)
          case 0
          with m show ?thesis by simp
        next
          case (Suc j)
          have "set (take j as) \<subseteq> set (take m as)"
            using Suc by (simp add: set_take_subset_set_take)
          with before' m Suc a_dirty show ?thesis by auto
        qed
        moreover have "n \<le> length (a # as)" using n by simp
        ultimately show ?thesis by blast
      next
        case False
        have "concat (map (dispatch H (heap s1)) (take n as)) =
                concat (map (dispatch H (heap s)) (take n as))"
          unfolding tk using same [OF False] by (simp add: front)
        with calls eff have "repo_calls s' = repo_calls s @ concat (map (dispatch H (heap s)) (take (Suc n) (a # as)))"
          by simp
        moreover have "\<forall>b\<in>set (take (Suc n - 1) (a # as)). entity_state H (heap s b) = Inr DIRTY"
          using before' m a_dirty by auto
        moreover have "Suc n \<le> length (a # as)" using n by simp
        ultimately show ?thesis by blast
      qed
    qed
    have succ: "distinct (a # as) \<and>
            repo_calls s' = repo_calls s @ concat (map (dispatch H (heap s)) (a # as)) \<and>
            (\<forall>b\<in>set (a # as). entity_state H (heap s b) = Inr DIRTY \<and> entity_state H (heap s' b) = Inr CLEAN)"
      if "r = None"
    proof -
      from ih that have d: "distinct as"
        and c: "repo_calls s' = repo_calls s1 @ concat (map (dispatch H (heap s1)) as)"
        and st: "\<forall>b\<in>set as. entity_state H (heap s1 b) = Inr DIRTY \<and> entity_state H (heap s' b) = Inr CLEAN"
        by simp_all
      from st other have ne: "\<forall>b\<in>set as. b \<noteq> a \<and> entity_state H (heap s b) = Inr DIRTY" by blast
      then have na: "a \<notin> set as" by blast
      have "concat (map (dispatch H (heap s1)) as) = concat (map (dispatch H (heap s)) as)"
        using ne same by (intro arg_cong [where f = concat]) simp
      with c eff have "repo_calls s' = repo_calls s @ concat (map (dispatch H (heap s)) (a # as))"
        by simp
      moreover from ih na a_clean have "entity_state H (heap s' a) = Inr CLEAN" by simp
      ultimately show ?thesis using d na st ne a_dirty by auto
    qed
    from ih eff pre succ show ?thesis by auto
  qed
qed

lemma commit_entities_append:
  "commit_entities H s (xs @ ys) =
     (case commit_entities H s xs of
        (Some e, s') \<Rightarrow> (Some e, s')
      | (None, s') \<Rightarrow> commit_entities H s' ys)"
  by (induction xs arbitrary: s) (auto split: prod.splits option.splits)

lemma commit_sets_concat:
  "commit_sets H s sets = commit_entities H s (concat (map snd sets))"
  by (induction sets arbitrary: s) (auto simp: commit_entities_append split: prod.splits option.splits)

lemma commit_as_entities:
  "commit H s = commit_entities H s (live_entities s)"
  by (simp add: commit_def commit_sets_concat live_entities_def)

text \<open>
  \<^verbatim>\<open>commit\<close> returns only when every entity it visits is observed DIRTY, each entity
  once: the reset after the dispatch raises for any other state.
\<close>

lemma commit_returns_all_dirty:
  assumes "fst (commit H s) = None"
  shows "distinct (live_entities s) \<and>
         (\<forall>a\<in>set (live_entities s). entity_state H (heap s a) = Inr DIRTY)"
proof -
  obtain r s' where c: "commit_entities H s (live_entities s) = (r, s')"
    by (cases "commit_entities H s (live_entities s)")
  with assms have "r = None" by (simp add: commit_as_entities)
  with commit_entities_effect [OF c] show ?thesis by simp
qed




end
